theory Spec2Isabelle
  imports Main
begin

section \<open>Python strings and the character tables the program relies on\<close>

text \<open>
  A Python \<open>str\<close> is a sequence of Unicode code points; it is modelled as a list of
  natural numbers, so that \<open>length\<close> counts what Python's \<open>len\<close> counts.
  The character tables of the Python runtime (\<open>str.isspace\<close>, \<open>str.isalnum\<close>, the
  simple lower-case mapping used by \<open>re.IGNORECASE\<close>) are written out for the
  Latin-1 range (code points below 256), where every character named by the program's
  patterns lives; code points from 256 upwards are treated as caseless characters that
  are neither white space nor word characters.
\<close>

type_synonym ustr = "nat list"

definition py_str :: "string \<Rightarrow> ustr" where
  "py_str s = map of_char s"

definition tolower :: "nat \<Rightarrow> nat" where
  "tolower c = (if (65 \<le> c \<and> c \<le> 90) \<or> (192 \<le> c \<and> c \<le> 222 \<and> c \<noteq> 215) then c + 32 else c)"

definition isspace :: "nat \<Rightarrow> bool" where
  "isspace c = ((9 \<le> c \<and> c \<le> 13) \<or> (28 \<le> c \<and> c \<le> 32) \<or> c = 133 \<or> c = 160)"

definition isdecimal :: "nat \<Rightarrow> bool" where
  "isdecimal c = (48 \<le> c \<and> c \<le> 57)"

definition isalnum :: "nat \<Rightarrow> bool" where
  "isalnum c = ((48 \<le> c \<and> c \<le> 57) \<or> (65 \<le> c \<and> c \<le> 90) \<or> (97 \<le> c \<and> c \<le> 122)
     \<or> c = 170 \<or> c = 178 \<or> c = 179 \<or> c = 181 \<or> c = 185 \<or> c = 186
     \<or> (188 \<le> c \<and> c \<le> 190) \<or> (192 \<le> c \<and> c \<le> 214) \<or> (216 \<le> c \<and> c \<le> 246)
     \<or> (248 \<le> c \<and> c \<le> 255))"

text \<open>\<open>s.strip()\<close>: leading and trailing white space removed.\<close>

definition strip :: "ustr \<Rightarrow> ustr" where
  "strip s = rev (dropWhile isspace (rev (dropWhile isspace s)))"

text \<open>
  \<open>s[a:b]\<close> with integer bounds: a negative bound counts from the end, and both
  bounds are clamped to the string.
\<close>

definition norm_index :: "int \<Rightarrow> int \<Rightarrow> int" where
  "norm_index n i = (if i < 0 then max 0 (i + n) else min i n)"

definition slice :: "ustr \<Rightarrow> int \<Rightarrow> int \<Rightarrow> ustr" where
  "slice s a b =
     (let n = int (length s); a' = norm_index n a; b' = norm_index n b
      in take (nat (b' - a')) (drop (nat a') s))"

text \<open>\<open>s.replace(old, new)\<close> for one-character \<open>old\<close> and \<open>new\<close>.\<close>

definition replace :: "ustr \<Rightarrow> nat \<Rightarrow> nat \<Rightarrow> ustr" where
  "replace s old new = map (\<lambda>c. if c = old then new else c) s"

section \<open>Regular expressions under \<open>re.IGNORECASE\<close>\<close>

text \<open>
  Both functions of the program compile their patterns with \<open>re.IGNORECASE\<close>, so the
  matcher below is the case-insensitive one. A pattern is a term of \<open>regex\<close>;
  \<open>Group n r\<close> is the \<open>n\<close>-th capturing group, \<open>Star r\<close> the greedy \<open>r*\<close>.
  A character class is a list of items: literals, ranges and the categories
  \<open>\s\<close>, \<open>\w\<close>, \<open>\d\<close>.
\<close>

datatype citem = CLit nat | CRange nat nat | CSpace | CWord | CDigit

datatype regex =
    Eps
  | Lit nat
  | Cls "citem list"
  | Seq regex regex
  | Alt regex regex
  | Star regex
  | Group nat regex

text \<open>\<open>r+\<close> is \<open>r\<close> followed by \<open>r*\<close>; the patterns use it on classes only.\<close>

definition Plus :: "regex \<Rightarrow> regex" where
  "Plus r = Seq r (Star r)"

text \<open>A literal string: one \<open>Lit\<close> for each character.\<close>

fun lits :: "ustr \<Rightarrow> regex" where
  "lits [] = Eps"
| "lits (c # cs) = Seq (Lit c) (lits cs)"

fun alts :: "regex list \<Rightarrow> regex" where
  "alts [] = Eps"
| "alts [r] = r"
| "alts (r # rs) = Alt r (alts rs)"

text \<open>
  A literal of the pattern matches a character of the text when both have the same
  lower-case form. A class matches a character when the lower-cased character meets one
  of its items, the literal and range items being lower-cased too.
\<close>

definition lit_match :: "nat \<Rightarrow> nat \<Rightarrow> bool" where
  "lit_match c d = (tolower d = tolower c)"

fun item_match :: "citem \<Rightarrow> nat \<Rightarrow> bool" where
  "item_match (CLit x) d = (d = tolower x)"
| "item_match (CRange a b) d = list_ex (\<lambda>x. d = tolower x) [a ..< Suc b]"
| "item_match CSpace d = isspace d"
| "item_match CWord d = (isalnum d \<or> d = 95)"
| "item_match CDigit d = isdecimal d"

definition cls_match :: "citem list \<Rightarrow> nat \<Rightarrow> bool" where
  "cls_match its d = list_ex (\<lambda>it. item_match it (tolower d)) its"

text \<open>
  The matcher. A match state is the position reached and the spans of the groups closed
  so far. \<open>ms t r st\<close> lists every state in which \<open>r\<close> can end when started in
  \<open>st\<close> on the text \<open>t\<close>, in the order in which a backtracking matcher tries them:
  the first alternative before the second, one more iteration of a star before leaving
  it. The head of the list for a whole pattern is the match Python reports. An iteration
  of a star that takes no character is not repeated; the stars of the program iterate
  over single characters.
\<close>

type_synonym caps = "nat \<Rightarrow> (nat \<times> nat) option"
type_synonym mstate = "nat \<times> caps"

function ms :: "ustr \<Rightarrow> regex \<Rightarrow> mstate \<Rightarrow> mstate list" where
  "ms t Eps st = [st]"
| "ms t (Lit c) (i, g) = (if i < length t \<and> lit_match c (t ! i) then [(Suc i, g)] else [])"
| "ms t (Cls its) (i, g) = (if i < length t \<and> cls_match its (t ! i) then [(Suc i, g)] else [])"
| "ms t (Seq a b) st = concat (map (ms t b) (ms t a st))"
| "ms t (Alt a b) st = ms t a st @ ms t b st"
| "ms t (Star r) (i, g) =
     concat (map (\<lambda>(j, g'). if i < j \<and> j \<le> length t then ms t (Star r) (j, g') else [])
                 (ms t r (i, g))) @ [(i, g)]"
| "ms t (Group n r) (i, g) = map (\<lambda>(j, g'). (j, g'(n \<mapsto> (i, j)))) (ms t r (i, g))"
  by pat_completeness auto
termination
  by (relation "inv_image (less_than <*lex*> less_than) (\<lambda>(t, r, (i, g)). (size r, Suc (length t) - i))")
     auto

lemmas ms_Star = ms.simps(6)

declare ms.simps(6) [simp del]

lemma ms_bounds_aux:
  "(e, g') \<in> set (ms t r st) \<Longrightarrow> fst st \<le> length t \<Longrightarrow> fst st \<le> e \<and> e \<le> length t"
proof (induction t r st arbitrary: e g' rule: ms.induct)
  case (4 t a b st)
  from "4.prems"(1) obtain j h where m: "(j, h) \<in> set (ms t a st)"
    and e: "(e, g') \<in> set (ms t b (j, h))"
    by auto
  from "4.IH"(1)[OF m "4.prems"(2)] have j: "fst st \<le> j" "j \<le> length t" by auto
  from "4.IH"(2)[OF m e] j(2) have "j \<le> e \<and> e \<le> length t" by simp
  with j show ?case by simp
next
  case (6 t r i g)
  from "6.prems"(1) consider
      (stop) "e = i"
    | (more) j h where "(j, h) \<in> set (ms t r (i, g))" "i < j" "j \<le> length t"
        "(e, g') \<in> set (ms t (Star r) (j, h))"
    by (subst (asm) ms_Star) (auto split: if_splits)
  then show ?case
  proof cases
    case stop
    with "6.prems"(2) show ?thesis by simp
  next
    case more
    have "j \<le> e \<and> e \<le> length t"
      using "6.IH"(2)[OF more(1) _ _ more(4)] more(2,3) by simp
    with more(2) show ?thesis by simp
  qed
qed (auto split: if_splits)

lemma ms_bounds:
  "(e, g') \<in> set (ms t r (i, g)) \<Longrightarrow> i \<le> length t \<Longrightarrow> i \<le> e \<and> e \<le> length t"
  using ms_bounds_aux[of e g' t r "(i, g)"] by simp

section \<open>Scanning a text: \<open>finditer\<close> and \<open>findall\<close>\<close>

text \<open>
  A match object: where the match starts and ends, and the spans of its groups.
\<close>

record match =
  mstart :: nat
  mend :: nat
  mgroups :: caps

text \<open>
  The scan of \<open>pattern.finditer(text)\<close>. At position \<open>i\<close> the first way the
  pattern can end is the match; the scan goes on from the end of the match. After an
  empty match (\<open>adv\<close>) a match at the same position must not be empty again. Where the
  pattern does not match, the scan moves one character on; it stops behind the end of
  the text.
\<close>

function scan :: "ustr \<Rightarrow> regex \<Rightarrow> nat \<Rightarrow> bool \<Rightarrow> match list" where
  "scan t r i adv =
     (if length t < i then []
      else case filter (\<lambda>(e, g). if adv then e \<noteq> i else True) (ms t r (i, Map.empty)) of
             [] \<Rightarrow> scan t r (Suc i) False
           | (e, g) # _ \<Rightarrow> \<lparr>mstart = i, mend = e, mgroups = g\<rparr> # scan t r e (e = i))"
  by pat_completeness auto
termination
proof (relation "inv_image (less_than <*lex*> less_than)
                  (\<lambda>(t, r, i, adv). (Suc (length t) - i, if adv then 0 else Suc 0))", goal_cases)
  case 1
  show ?case by (rule wf_inv_image) (rule wf_lex_prod; rule wf_less_than)
next
  case (2 t r i adv)
  then show ?case by auto
next
  case (3 t r i adv x ys e g)
  from 3(2,3) have "(e, g) \<in> set (filter (\<lambda>(e, g). if adv then e \<noteq> i else True) (ms t r (i, Map.empty)))"
    by simp
  then have mem: "(e, g) \<in> set (ms t r (i, Map.empty))" and ne: "adv \<Longrightarrow> e \<noteq> i"
    by auto
  from 3(1) have "i \<le> length t" by simp
  from ms_bounds[OF mem this] have "i \<le> e" "e \<le> length t" by auto
  with ne show ?case by (cases "e = i"; cases adv) auto
qed

lemmas scan_unfold = scan.simps

declare scan.simps [simp del]

definition finditer :: "regex \<Rightarrow> ustr \<Rightarrow> match list" where
  "finditer pattern t = scan t pattern 0 False"

text \<open>
  \<open>pattern.findall(text)\<close> gives, for each match, the whole match when the pattern has
  no group, the string of the group when it has one, and the tuple of the strings of all
  groups when it has several. A group that took no part in the match gives the empty
  string.
\<close>

fun ngroups :: "regex \<Rightarrow> nat" where
  "ngroups (Seq a b) = ngroups a + ngroups b"
| "ngroups (Alt a b) = ngroups a + ngroups b"
| "ngroups (Star r) = ngroups r"
| "ngroups (Group n r) = Suc (ngroups r)"
| "ngroups r = 0"

datatype fa_item = Str ustr | Tup "ustr list"

definition group :: "ustr \<Rightarrow> match \<Rightarrow> nat \<Rightarrow> ustr" where
  "group t m n =
     (if n = 0 then slice t (int (mstart m)) (int (mend m))
      else case mgroups m n of None \<Rightarrow> [] | Some (a, b) \<Rightarrow> slice t (int a) (int b))"

definition findall :: "regex \<Rightarrow> ustr \<Rightarrow> fa_item list" where
  "findall pattern t =
     map (\<lambda>m. if ngroups pattern = 0 then Str (group t m 0)
              else if ngroups pattern = 1 then Str (group t m 1)
              else Tup (map (group t m) [1 ..< Suc (ngroups pattern)]))
         (finditer pattern t)"

section \<open>\<open>search_in_pdf\<close>\<close>

text \<open>
  \<open>re.escape(query)\<close> puts a backslash before each of the characters
  \<open>()[]{}?*+-|^$\.&~#\<close>, the space and the white space characters
  tab, newline, carriage return, vertical tab and form feed.
\<close>

definition escape_chars :: "nat list" where
  "escape_chars = [40, 41, 91, 93, 123, 125, 63, 42, 43, 45, 124, 94, 36, 92, 46, 38, 126,
                   35, 32, 9, 10, 13, 11, 12]"

definition re_escape :: "ustr \<Rightarrow> ustr" where
  "re_escape q = concat (map (\<lambda>c. if c \<in> set escape_chars then [92, c] else [c]) q)"

text \<open>
  \<open>re.compile\<close>, on the patterns \<open>re.escape\<close> can produce: a backslash followed by
  a character that is no ASCII letter or digit stands for that character, a backslash at
  the end of the pattern is an error, and a character that is none of the parser's
  special characters \<open>.\[{()*+?^$|\<close> stands for itself. Every other pattern is outside
  this fragment and answered by \<open>NotModelled\<close>.
\<close>

datatype re_error = BadEscape | NotModelled

definition special_chars :: "nat list" where
  "special_chars = [46, 92, 91, 123, 40, 41, 42, 43, 63, 94, 36, 124]"

definition ascii_alnum :: "nat \<Rightarrow> bool" where
  "ascii_alnum c = ((48 \<le> c \<and> c \<le> 57) \<or> (65 \<le> c \<and> c \<le> 90) \<or> (97 \<le> c \<and> c \<le> 122))"

fun re_compile :: "ustr \<Rightarrow> re_error + regex" where
  "re_compile [] = Inr Eps"
| "re_compile [c] =
     (if c = 92 then Inl BadEscape
      else if c \<in> set special_chars then Inl NotModelled
      else Inr (Seq (Lit c) Eps))"
| "re_compile (c # d # ds) =
     (if c = 92 then
        (if ascii_alnum d then Inl NotModelled
         else case re_compile ds of Inl e \<Rightarrow> Inl e | Inr r \<Rightarrow> Inr (Seq (Lit d) r))
      else if c \<in> set special_chars then Inl NotModelled
      else case re_compile (d # ds) of Inl e \<Rightarrow> Inl e | Inr r \<Rightarrow> Inr (Seq (Lit c) r))"

text \<open>
  A page, the dictionary with the keys \<open>page\<close> and \<open>text\<close>, and a row of the result,
  with the keys \<open>P\<aacute>gina\<close>, \<open>Coincidencia\<close> and \<open>Contexto\<close>.
\<close>

record page_info =
  page :: nat
  page_text :: ustr

record hit =
  Pagina :: nat
  Coincidencia :: ustr
  Contexto :: ustr

text \<open>
  \<open>extract_text_with_pages\<close>. The PDF library is outside the program; the document it
  opens is taken as the list of the texts of its pages, and the pages are numbered from 1.
\<close>

definition extract_text_with_pages :: "ustr list \<Rightarrow> page_info list" where
  "extract_text_with_pages pdf_doc =
     map (\<lambda>(i, t). \<lparr>page = i + 1, page_text = t\<rparr>) (enumerate 0 pdf_doc)"

text \<open>The body of the inner loop: the row built from one match.\<close>

definition make_hit :: "page_info \<Rightarrow> match \<Rightarrow> hit" where
  "make_hit page_info m =
     (let t = page_text page_info;
          start = max 0 (int (mstart m) - 100);
          end' = min (int (length t)) (int (mend m) + 100);
          context = replace (slice t start end') 10 32
      in \<lparr>Pagina = page page_info, Coincidencia = group t m 0, Contexto = context\<rparr>)"

definition search_pages :: "regex \<Rightarrow> page_info list \<Rightarrow> hit list" where
  "search_pages pattern pages_text =
     concat (map (\<lambda>page_info. map (make_hit page_info) (finditer pattern (page_text page_info)))
                 pages_text)"

definition search_in_pdf :: "page_info list \<Rightarrow> ustr \<Rightarrow> re_error + hit list" where
  "search_in_pdf pages_text query =
     (case re_compile (re_escape query) of
        Inl e \<Rightarrow> Inl e
      | Inr pattern \<Rightarrow> Inr (search_pages pattern pages_text))"

section \<open>\<open>analyze_legal_data\<close>\<close>

text \<open>
  The keys of the pattern dictionary, \<open>Juzgado\<close>, \<open>Expediente\<close>, \<open>Secretar\<iacute>a\<close>,
  \<open>Demandante\<close> and \<open>Demandado\<close>, and a row of the table, with the columns
  \<open>Categor\<iacute>a\<close> and \<open>Valor\<close>.
\<close>

datatype category = Juzgado | Expediente | Secretaria | Demandante | Demandado

record row =
  Categoria :: category
  Valor :: ustr

text \<open>
  The pattern table, in the order of the dictionary of the source. Each pattern is
  written as a term, under the pattern string it stands for; characters beyond ASCII
  are given by their code points.
\<close>

definition word_alts :: "string list \<Rightarrow> regex" where
  "word_alts ws = alts (map (\<lambda>w. lits (py_str w)) ws)"

definition pat_Juzgado :: regex where
  \<comment> \<open>\<open>(Juzgado|Sala|Tribunal)[\s\w\<ordmasculine>\<degree>\d\-\.]*\<close>\<close>
  "pat_Juzgado =
     Seq (Group 1 (word_alts [''Juzgado'', ''Sala'', ''Tribunal'']))
         (Star (Cls [CSpace, CWord, CLit 186, CLit 176, CDigit, CLit 45, CLit 46]))"

definition pat_Expediente :: regex where
  \<comment> \<open>\<open>(Expediente|T\.|Toca|Juicio|Proceso|Asunto)\s*[A-Z0-9\/\-\.]+\<close>\<close>
  "pat_Expediente =
     Seq (Group 1 (word_alts [''Expediente'', ''T.'', ''Toca'', ''Juicio'', ''Proceso'', ''Asunto'']))
         (Seq (Star (Cls [CSpace]))
              (Plus (Cls [CRange 65 90, CRange 48 57, CLit 47, CLit 45, CLit 46])))"

definition pat_Secretaria :: regex where
  \<comment> \<open>\<open>(Secretar[i\<iacute>]a|Despacho)\s*[\w\d\s\<ordmasculine>\<degree>#\-]*\<close>\<close>
  "pat_Secretaria =
     Seq (Group 1 (Alt (Seq (lits (py_str ''Secretar'')) (Seq (Cls [CLit 105, CLit 237]) (Lit 97)))
                       (lits (py_str ''Despacho''))))
         (Seq (Star (Cls [CSpace]))
              (Star (Cls [CWord, CDigit, CSpace, CLit 186, CLit 176, CLit 35, CLit 45])))"

definition name_class :: regex where
  \<comment> \<open>\<open>[A-Z\<Aacute>\<Eacute>\<Iacute>\<Oacute>\<Uacute>\<Ntilde>a-z\s\.]\<close>\<close>
  "name_class = Cls [CRange 65 90, CLit 193, CLit 201, CLit 205, CLit 211, CLit 218, CLit 209,
                     CRange 97 122, CSpace, CLit 46]"

definition pat_Demandante :: regex where
  \<comment> \<open>\<open>(Demandante|Actor|Parte\s+Actora)[:\s]+([A-Z\<Aacute>\<Eacute>\<Iacute>\<Oacute>\<Uacute>\<Ntilde>a-z\s\.]+)\<close>\<close>
  "pat_Demandante =
     Seq (Group 1 (Alt (lits (py_str ''Demandante''))
                  (Alt (lits (py_str ''Actor''))
                       (Seq (lits (py_str ''Parte'')) (Seq (Plus (Cls [CSpace])) (lits (py_str ''Actora'')))))))
         (Seq (Plus (Cls [CLit 58, CSpace])) (Group 2 (Plus name_class)))"

definition pat_Demandado :: regex where
  \<comment> \<open>\<open>(Demandado|Demandada|Parte\s+Demandada)[:\s]+([A-Z\<Aacute>\<Eacute>\<Iacute>\<Oacute>\<Uacute>\<Ntilde>a-z\s\.]+)\<close>\<close>
  "pat_Demandado =
     Seq (Group 1 (Alt (lits (py_str ''Demandado''))
                  (Alt (lits (py_str ''Demandada''))
                       (Seq (lits (py_str ''Parte'')) (Seq (Plus (Cls [CSpace])) (lits (py_str ''Demandada'')))))))
         (Seq (Plus (Cls [CLit 58, CSpace])) (Group 2 (Plus name_class)))"

definition patterns :: "(category \<times> regex) list" where
  "patterns = [(Juzgado, pat_Juzgado), (Expediente, pat_Expediente), (Secretaria, pat_Secretaria),
               (Demandante, pat_Demandante), (Demandado, pat_Demandado)]"

text \<open>
  \<open>DataFrame.drop_duplicates()\<close>: of equal rows the first is kept, and the rows kept
  stay in their order. The table is the list of its rows; the index labels of the data
  frame are left out.
\<close>

fun drop_dups :: "'a list \<Rightarrow> 'a list \<Rightarrow> 'a list" where
  "drop_dups seen [] = []"
| "drop_dups seen (x # xs) = (if x \<in> set seen then drop_dups seen xs else x # drop_dups (x # seen) xs)"

definition drop_duplicates :: "'a list \<Rightarrow> 'a list" where
  "drop_duplicates rows = drop_dups [] rows"

text \<open>The rows appended by the two loops, before the duplicates are dropped.\<close>

definition rows_of :: "category \<Rightarrow> regex \<Rightarrow> ustr \<Rightarrow> row list" where
  "rows_of key pattern t =
     map (\<lambda>m. case m of
                 Tup gs \<Rightarrow> \<lparr>Categoria = key, Valor = strip (last gs)\<rparr>
               | Str s \<Rightarrow> \<lparr>Categoria = key, Valor = strip s\<rparr>)
         (findall pattern t)"

definition results :: "ustr \<Rightarrow> row list" where
  "results t = concat (map (\<lambda>(key, pattern). rows_of key pattern t) patterns)"

definition analyze_legal_data :: "ustr \<Rightarrow> row list" where
  "analyze_legal_data t = drop_duplicates (results t)"

section \<open>Notions in which the claims are stated\<close>

text \<open>
  Comparison without regard to case, character by character, and an occurrence of the
  query at a position of the text.
\<close>

definition eq_ignorecase :: "ustr \<Rightarrow> ustr \<Rightarrow> bool" where
  "eq_ignorecase q w = (map tolower q = map tolower w)"

definition occurs_at :: "ustr \<Rightarrow> ustr \<Rightarrow> nat \<Rightarrow> bool" where
  "occurs_at q t i = (i + length q \<le> length t \<and> eq_ignorecase q (take (length q) (drop i t)))"

text \<open>
  The search as the specification words it, a left-to-right scan without overlap: an
  occurrence is reported and the scan goes on behind it; where the query does not occur
  the scan moves one character on.
\<close>

function occurrences :: "ustr \<Rightarrow> ustr \<Rightarrow> nat \<Rightarrow> nat list" where
  "occurrences q t i =
     (if q = [] \<or> length t < i + length q then []
      else if occurs_at q t i then i # occurrences q t (i + length q)
      else occurrences q t (Suc i))"
  by pat_completeness auto
termination
proof (relation "measure (\<lambda>(q, t, i). Suc (length t) - i)", goal_cases)
  case (2 q t i)
  then have "0 < length q" "i + length q \<le> length t" by simp_all
  then have "Suc (length t) - (i + length q) < Suc (length t) - i" by arith
  then show ?case by simp
qed auto

lemmas occurrences_unfold = occurrences.simps

declare occurrences.simps [simp del]

text \<open>The match of a literal query that starts at position \<open>s\<close>.\<close>

definition literal_match :: "ustr \<Rightarrow> nat \<Rightarrow> match" where
  "literal_match q s = \<lparr>mstart = s, mend = s + length q, mgroups = Map.empty\<rparr>"

text \<open>
  A text contains a word without regard to case when the word equals, without regard to
  case, a slice of the text.
\<close>

definition contains_ignorecase :: "ustr \<Rightarrow> ustr \<Rightarrow> bool" where
  "contains_ignorecase s w =
     list_ex (\<lambda>i. eq_ignorecase w (take (length w) (drop i s))) [0 ..< Suc (length s - length w)]"

text \<open>The place of a category in the pattern table.\<close>

definition cat_rank :: "category \<Rightarrow> nat" where
  "cat_rank k = length (takeWhile (\<lambda>kp. fst kp \<noteq> k) patterns)"

text \<open>
  A pattern starts visibly when each of its matches is not empty, begins with a character
  that is no white space, and leaves the groups as they were.
\<close>

definition starts_visible :: "regex \<Rightarrow> bool" where
  "starts_visible r =
     (\<forall>t i g e g'. (e, g') \<in> set (ms t r (i, g)) \<longrightarrow>
        i < e \<and> i < length t \<and> \<not> isspace (t ! i) \<and> g' = g)"

text \<open>
  A keyword pattern: its first group is such a keyword, and nothing else in it is a
  group.
\<close>

definition keyword_pattern :: "regex \<Rightarrow> bool" where
  "keyword_pattern p = (\<exists>k r. p = Seq (Group 1 k) r \<and> starts_visible k \<and> ngroups k = 0 \<and> ngroups r = 0)"

section \<open>Properties of the matcher and of the scan\<close>

lemma ms_lits:
  "i \<le> length t \<Longrightarrow> ms t (lits q) (i, g) = (if occurs_at q t i then [(i + length q, g)] else [])"
proof (induction q arbitrary: i)
  case Nil
  then show ?case by (simp add: occurs_at_def eq_ignorecase_def)
next
  case (Cons c cs)
  show ?case
  proof (cases "i < length t")
    case False
    then show ?thesis by (simp add: occurs_at_def)
  next
    case True
    then have d: "drop i t = t ! i # drop (Suc i) t"
      by (simp add: Cons_nth_drop_Suc)
    from True have "Suc i \<le> length t" by simp
    from Cons.IH[OF this] True d show ?thesis
      by (auto simp: occurs_at_def eq_ignorecase_def lit_match_def)
  qed
qed

lemma re_compile_escape: "re_compile (re_escape q) = Inr (lits q)"
proof (induction q)
  case Nil
  then show ?case by (simp add: re_escape_def)
next
  case (Cons c q)
  have e: "re_escape (c # q) = (if c \<in> set escape_chars then [92, c] else [c]) @ re_escape q"
    by (simp add: re_escape_def)
  show ?case
  proof (cases "c \<in> set escape_chars")
    case True
    then have "\<not> ascii_alnum c" by (auto simp: escape_chars_def ascii_alnum_def)
    with True Cons e show ?thesis by simp
  next
    case False
    then have "c \<noteq> 92" "c \<notin> set special_chars" by (auto simp: escape_chars_def special_chars_def)
    with False Cons e show ?thesis by (cases "re_escape q") auto
  qed
qed


lemma scan_cases:
  "scan t r i adv =
     (if length t < i then []
      else case filter (\<lambda>(e, g). if adv then e \<noteq> i else True) (ms t r (i, Map.empty)) of
             [] \<Rightarrow> scan t r (Suc i) False
           | (e, g) # _ \<Rightarrow> \<lparr>mstart = i, mend = e, mgroups = g\<rparr> # scan t r e (e = i))"
  by (rule scan_unfold)

lemma scan_mem:
  "m \<in> set (scan t r i adv) \<Longrightarrow>
     i \<le> mstart m \<and> mstart m \<le> mend m \<and> mend m \<le> length t \<and>
     (mend m, mgroups m) \<in> set (ms t r (mstart m, Map.empty))"
proof (induction t r i adv rule: scan.induct)
  case (1 t r i adv)
  let ?ok = "filter (\<lambda>(e, g). if adv then e \<noteq> i else True) (ms t r (i, Map.empty))"
  from "1.prems" have le: "\<not> length t < i"
    by (subst (asm) scan_cases) (auto split: if_splits)
  show ?case
  proof (cases ?ok)
    case Nil
    with "1.prems" le have "m \<in> set (scan t r (Suc i) False)"
      by (subst (asm) scan_cases) simp
    from "1.IH"(1)[OF le Nil this] show ?thesis by simp
  next
    case (Cons x ys)
    obtain e g where x: "x = (e, g)" by (cases x)
    have "(e, g) \<in> set ?ok" unfolding Cons x by simp
    then have mem: "(e, g) \<in> set (ms t r (i, Map.empty))" by simp
    from le have "i \<le> length t" by simp
    from ms_bounds[OF mem this] have b: "i \<le> e" "e \<le> length t" by auto
    from "1.prems" le Cons x
    consider "m = \<lparr>mstart = i, mend = e, mgroups = g\<rparr>" | "m \<in> set (scan t r e (e = i))"
      by (subst (asm) scan_cases) auto
    then show ?thesis
    proof cases
      case 1
      with mem b show ?thesis by simp
    next
      case 2
      from "1.IH"(2)[OF le Cons x[symmetric] 2] b show ?thesis by simp
    qed
  qed
qed

lemma scan_sorted: "sorted_wrt (\<lambda>a b. mend a \<le> mstart b) (scan t r i adv)"
proof (induction t r i adv rule: scan.induct)
  case (1 t r i adv)
  let ?ok = "filter (\<lambda>(e, g). if adv then e \<noteq> i else True) (ms t r (i, Map.empty))"
  show ?case
  proof (cases "length t < i")
    case True
    then show ?thesis by (subst scan_cases) simp
  next
    case le: False
    show ?thesis
    proof (cases ?ok)
      case Nil
      from "1.IH"(1)[OF le Nil] le Nil show ?thesis by (subst scan_cases) simp
    next
      case (Cons x ys)
      obtain e g where x: "x = (e, g)" by (cases x)
      have "\<forall>m \<in> set (scan t r e (e = i)). e \<le> mstart m"
        using scan_mem by blast
      with "1.IH"(2)[OF le Cons x[symmetric]] le Cons x show ?thesis
        by (subst scan_cases) simp
    qed
  qed
qed


lemma scan_lits_step:
  "q \<noteq> [] \<Longrightarrow> scan t (lits q) i False =
     (if length t < i then []
      else if occurs_at q t i then literal_match q i # scan t (lits q) (i + length q) False
      else scan t (lits q) (Suc i) False)"
  by (subst scan_cases) (simp add: ms_lits literal_match_def)

lemma scan_lits_none:
  "q \<noteq> [] \<Longrightarrow> length t < i + length q \<Longrightarrow> scan t (lits q) i False = []"
proof (induction "Suc (length t) - i" arbitrary: i)
  case 0
  then show ?case by (subst scan_cases) simp
next
  case (Suc n)
  from Suc.prems have no: "\<not> occurs_at q t i" by (simp add: occurs_at_def)
  from Suc.hyps(2) have "n = Suc (length t) - Suc i" by simp
  from Suc.hyps(1)[OF this Suc.prems(1)] Suc.prems(2)
  have "scan t (lits q) (Suc i) False = []" by simp
  with no Suc.prems(1) show ?case by (subst scan_lits_step) simp_all
qed

lemma scan_lits_occurrences:
  "q \<noteq> [] \<Longrightarrow> scan t (lits q) i False = map (literal_match q) (occurrences q t i)"
proof (induction q t i rule: occurrences.induct)
  case (1 q t i)
  show ?case
  proof (cases "length t < i + length q")
    case True
    with "1.prems" show ?thesis
      by (subst occurrences_unfold) (simp add: scan_lits_none)
  next
    case False
    then have le: "\<not> length t < i" by simp
    show ?thesis
    proof (cases "occurs_at q t i")
      case True
      from "1.IH"(1)[OF _ True "1.prems"] "1.prems" False
      have "scan t (lits q) (i + length q) False = map (literal_match q) (occurrences q t (i + length q))"
        by simp
      with True False le "1.prems" show ?thesis
        by (subst occurrences_unfold, subst scan_lits_step) simp_all
    next
      case no: False
      from "1.IH"(2)[OF _ no "1.prems"] "1.prems" False
      have "scan t (lits q) (Suc i) False = map (literal_match q) (occurrences q t (Suc i))"
        by simp
      with no False le "1.prems" show ?thesis
        by (subst occurrences_unfold, subst scan_lits_step) simp_all
    qed
  qed
qed

lemma scan_Eps:
  "i \<le> length t \<Longrightarrow> scan t Eps i False = map (literal_match []) [i ..< Suc (length t)]"
proof (induction "length t - i" arbitrary: i)
  case 0
  then have i: "i = length t" by simp
  have "scan t Eps (Suc i) False = []" using i by (subst scan_cases) simp
  then have "scan t Eps i True = []" using i by (subst scan_cases) simp
  then show ?case using i by (subst scan_cases) (simp add: literal_match_def)
next
  case (Suc n)
  then have lt: "i < length t" by simp
  from Suc.hyps(2) have "n = length t - Suc i" by simp
  from Suc.hyps(1)[OF this] lt
  have "scan t Eps (Suc i) False = map (literal_match []) [Suc i ..< Suc (length t)]" by simp
  then have "scan t Eps i True = map (literal_match []) [Suc i ..< Suc (length t)]"
    using lt by (subst scan_cases) simp
  moreover have "[i ..< Suc (length t)] = i # [Suc i ..< Suc (length t)]"
    using lt by (simp add: upt_conv_Cons)
  ultimately show ?case using lt by (subst scan_cases) (simp add: literal_match_def)
qed


section \<open>Properties of \<open>search_in_pdf\<close>\<close>

lemma slice_nat:
  "a \<le> b \<Longrightarrow> b \<le> length s \<Longrightarrow> slice s (int a) (int b) = take (b - a) (drop a s)"
  by (simp add: slice_def norm_index_def Let_def min_def nat_diff_distrib')

lemma search_in_pdf_literal:
  "search_in_pdf pages_text query = Inr (search_pages (lits query) pages_text)"
  by (simp add: search_in_pdf_def re_compile_escape)

lemma search_pages_mem:
  "h \<in> set (search_pages r pages_text) \<longleftrightarrow>
     (\<exists>p \<in> set pages_text. \<exists>m \<in> set (finditer r (page_text p)). h = make_hit p m)"
  by (auto simp: search_pages_def)

lemma finditer_mem:
  "m \<in> set (finditer r t) \<Longrightarrow>
     mstart m \<le> mend m \<and> mend m \<le> length t \<and>
     (mend m, mgroups m) \<in> set (ms t r (mstart m, Map.empty))"
  unfolding finditer_def using scan_mem[of m t r 0 False] by simp

lemma finditer_lits_mem:
  assumes "m \<in> set (finditer (lits q) t)"
  shows "occurs_at q t (mstart m) \<and> mend m = mstart m + length q"
proof -
  from finditer_mem[OF assms] have b: "mstart m \<le> length t"
    and mem: "(mend m, mgroups m) \<in> set (ms t (lits q) (mstart m, Map.empty))"
    by auto
  from mem show ?thesis unfolding ms_lits[OF b] by (auto split: if_splits)
qed

lemma make_hit_Pagina: "Pagina (make_hit p m) = page p"
  by (simp add: make_hit_def Let_def)

lemma make_hit_Coincidencia:
  "mstart m \<le> mend m \<Longrightarrow> mend m \<le> length (page_text p) \<Longrightarrow>
     Coincidencia (make_hit p m) = take (mend m - mstart m) (drop (mstart m) (page_text p))"
  by (simp add: make_hit_def Let_def group_def slice_nat)

lemma make_hit_Contexto:
  assumes "mstart m \<le> mend m" "mend m \<le> length (page_text p)"
  shows "Contexto (make_hit p m) =
     replace (take (min (length (page_text p)) (mend m + 100) - (mstart m - 100))
                   (drop (mstart m - 100) (page_text p))) 10 32"
proof -
  have a: "max 0 (int (mstart m) - 100) = int (mstart m - 100)" by simp
  have b: "min (int (length (page_text p))) (int (mend m) + 100) = int (min (length (page_text p)) (mend m + 100))"
    by simp
  have "mstart m - 100 \<le> min (length (page_text p)) (mend m + 100)" using assms by arith
  then show ?thesis
    unfolding make_hit_def Let_def a b by (simp add: slice_nat replace_def)
qed


lemma contains_ignorecaseI: "s = u @ w @ v \<Longrightarrow> contains_ignorecase s w"
  unfolding contains_ignorecase_def list_ex_iff
  by (rule bexI[of _ "length u"]) (simp_all add: eq_ignorecase_def)

lemma window_split:
  assumes "a \<le> s" "s \<le> e" "e \<le> b"
  shows "take (b - a) (drop a t) = take (s - a) (drop a t) @ take (e - s) (drop s t) @ take (b - e) (drop e t)"
proof -
  have "b - a = (s - a) + ((e - s) + (b - e))" using assms by simp
  then have "take (b - a) (drop a t) = take ((s - a) + ((e - s) + (b - e))) (drop a t)" by simp
  also have "\<dots> = take (s - a) (drop a t) @ take ((e - s) + (b - e)) (drop (s - a) (drop a t))"
    by (rule take_add)
  also have "drop (s - a) (drop a t) = drop s t" using assms by simp
  also have "take ((e - s) + (b - e)) (drop s t) = take (e - s) (drop s t) @ take (b - e) (drop (e - s) (drop s t))"
    by (rule take_add)
  also have "drop (e - s) (drop s t) = drop e t" using assms by simp
  finally show ?thesis .
qed

lemma tolower_newline: "tolower c = 10 \<longleftrightarrow> c = 10"
  by (auto simp: tolower_def)

lemma eq_ignorecase_newline:
  assumes "eq_ignorecase q w" "10 \<notin> set q"
  shows "10 \<notin> set w"
proof
  assume "10 \<in> set w"
  then have "tolower 10 \<in> tolower ` set w" by (rule imageI)
  with assms(1) have "10 \<in> set (map tolower q)"
    unfolding eq_ignorecase_def by (simp add: tolower_def)
  then obtain c where "c \<in> set q" "tolower c = 10" by auto
  with assms(2) show False by (simp add: tolower_newline)
qed

lemma replace_id: "a \<notin> set s \<Longrightarrow> replace s a b = s"
  by (induction s) (auto simp: replace_def)

lemma replace_append: "replace (u @ v) a b = replace u a b @ replace v a b"
  by (simp add: replace_def)

lemma hit_of_literal:
  assumes "h \<in> set (search_pages (lits query) pages_text)"
  obtains p m where "p \<in> set pages_text" "m \<in> set (finditer (lits query) (page_text p))"
    "h = make_hit p m" "mend m = mstart m + length query" "mend m \<le> length (page_text p)"
    "eq_ignorecase query (take (length query) (drop (mstart m) (page_text p)))"
proof -
  from assms obtain p m where p: "p \<in> set pages_text"
    and m: "m \<in> set (finditer (lits query) (page_text p))" and h: "h = make_hit p m"
    unfolding search_pages_mem by blast
  from finditer_mem[OF m] finditer_lits_mem[OF m] p m h that show thesis
    by (simp add: occurs_at_def)
qed

lemma finditer_Eps: "finditer Eps t = map (literal_match []) [0 ..< Suc (length t)]"
  unfolding finditer_def by (rule scan_Eps) simp

lemma make_hit_empty_match:
  "s \<le> length (page_text p) \<Longrightarrow> Coincidencia (make_hit p (literal_match [] s)) = []"
  by (subst make_hit_Coincidencia) (simp_all add: literal_match_def)

lemma length_search_pages:
  "length (search_pages r pages_text) = sum_list (map (\<lambda>p. length (finditer r (page_text p))) pages_text)"
  by (simp add: search_pages_def length_concat comp_def)

lemma finditer_lits: "q \<noteq> [] \<Longrightarrow> finditer (lits q) t = map (literal_match q) (occurrences q t 0)"
  unfolding finditer_def by (rule scan_lits_occurrences)

lemma occurrences_sorted:
  assumes "q \<noteq> []"
  shows "sorted_wrt (\<lambda>s s'. s + length q \<le> s') (occurrences q t 0)"
proof -
  have "sorted_wrt (\<lambda>a b. mend a \<le> mstart b) (map (literal_match q) (occurrences q t 0))"
    using scan_sorted[of t "lits q" 0 False] scan_lits_occurrences[OF assms, of t 0] by simp
  then show ?thesis by (simp add: sorted_wrt_map literal_match_def)
qed

lemma sorted_concat_replicate:
  "sorted (map f ps) \<Longrightarrow> sorted (concat (map (\<lambda>p. replicate (n p) (f p)) ps))"
  by (induction ps) (auto simp: sorted_append)

lemma Pagina_search_pages:
  "map Pagina (search_pages r pages_text) =
     concat (map (\<lambda>p. replicate (length (finditer r (page_text p))) (page p)) pages_text)"
  by (simp add: search_pages_def map_concat comp_def make_hit_Pagina map_replicate_const)

lemma occurrences_occur:
  assumes "q \<noteq> []" "s \<in> set (occurrences q t 0)"
  shows "occurs_at q t s"
proof -
  from assms have "literal_match q s \<in> set (finditer (lits q) t)"
    by (simp add: finditer_lits)
  from finditer_lits_mem[OF this] show ?thesis by (simp add: literal_match_def)
qed

lemma occurrences_complete_from:
  "q \<noteq> [] \<Longrightarrow> occurs_at q t i \<Longrightarrow> j \<le> i \<Longrightarrow>
     \<exists>s \<in> set (occurrences q t j). s \<le> i \<and> i < s + length q"
proof (induction q t j rule: occurrences.induct)
  case (1 q t j)
  from "1.prems" have fit: "\<not> (q = [] \<or> length t < j + length q)"
    by (simp add: occurs_at_def)
  show ?case
  proof (cases "occurs_at q t j")
    case True
    show ?thesis
    proof (cases "i < j + length q")
      case True
      with \<open>occurs_at q t j\<close> fit "1.prems"(3) show ?thesis
        by (subst occurrences_unfold) simp
    next
      case False
      then have "j + length q \<le> i" by simp
      from "1.IH"(1)[OF fit True "1.prems"(1,2) this] True fit show ?thesis
        by (subst occurrences_unfold) auto
    qed
  next
    case False
    with "1.prems"(2,3) have "Suc j \<le> i" by (cases "i = j") auto
    from "1.IH"(2)[OF fit False "1.prems"(1,2) this] False fit show ?thesis
      by (subst occurrences_unfold) auto
  qed
qed

lemma extract_pages: "map page (extract_text_with_pages pdf_doc) = [1 ..< Suc (length pdf_doc)]"
proof -
  have "map page (extract_text_with_pages pdf_doc) = map (Suc \<circ> fst) (enumerate 0 pdf_doc)"
    by (simp add: extract_text_with_pages_def comp_def case_prod_unfold)
  also have "\<dots> = map Suc (map fst (enumerate 0 pdf_doc))" by (simp only: map_map)
  also have "\<dots> = map Suc [0 ..< length pdf_doc]" by (simp only: map_fst_enumerate) simp
  also have "\<dots> = [Suc 0 ..< Suc (length pdf_doc)]" by (rule map_Suc_upt)
  finally show ?thesis by simp
qed

lemma extract_pages_sorted: "sorted (map page (extract_text_with_pages pdf_doc))"
  by (simp only: extract_pages sorted_upt)

section \<open>The claims about \<open>search_in_pdf\<close>\<close>

text \<open>
  C3 (as amended). Called with the empty string as query, \<open>search_in_pdf\<close> does not return
  zero hits: the empty pattern matches at every position of every page, so each page
  of \<open>n\<close> characters gives \<open>n + 1\<close> hits, each with an empty matched text. The result
  is empty only when there is no page.
\<close>

theorem search_empty_query:
  "\<exists>hits. search_in_pdf pages_text [] = Inr hits \<and>
     length hits = sum_list (map (\<lambda>p. Suc (length (page_text p))) pages_text) \<and>
     list_all (\<lambda>h. Coincidencia h = []) hits \<and>
     (hits = [] \<longleftrightarrow> pages_text = [])"
proof -
  let ?hits = "search_pages (lits []) pages_text"
  have len: "length ?hits = sum_list (map (\<lambda>p. Suc (length (page_text p))) pages_text)"
    by (simp add: length_search_pages finditer_Eps)
  have emp: "Coincidencia h = []" if "h \<in> set ?hits" for h
  proof -
    from that obtain p s where "h = make_hit p (literal_match [] s)" "s \<le> length (page_text p)"
      unfolding search_pages_mem by (auto simp: finditer_Eps)
    then show ?thesis by (simp add: make_hit_empty_match)
  qed
  have "?hits = [] \<longleftrightarrow> pages_text = []"
  proof
    assume "?hits = []"
    then have "sum_list (map (\<lambda>p. Suc (length (page_text p))) pages_text) = 0"
      using len by simp
    then show "pages_text = []" by (cases pages_text) simp_all
  next
    assume "pages_text = []"
    then show "?hits = []" by (simp add: search_pages_def)
  qed
  with len emp show ?thesis
    unfolding search_in_pdf_literal by (simp add: list_all_iff)
qed

text \<open>
  The claim as stated fails on a page that holds \<open>ab\<close>: the empty query gives three
  hits there.
\<close>

theorem search_empty_query_counterexample:
  "search_in_pdf [\<lparr>page = 1, page_text = py_str ''ab''\<rparr>] []
     = Inr [\<lparr>Pagina = 1, Coincidencia = [], Contexto = py_str ''ab''\<rparr>,
            \<lparr>Pagina = 1, Coincidencia = [], Contexto = py_str ''ab''\<rparr>,
            \<lparr>Pagina = 1, Coincidencia = [], Contexto = py_str ''ab''\<rparr>]"
  by code_simp



text \<open>
  C6 (as amended). Every hit's context contains the hit's matched text with its newlines
  replaced by spaces. When the query holds no newline, the context contains the matched
  text itself, exactly and so also without regard to case.
\<close>

theorem search_context_contains_match:
  "\<exists>hits. search_in_pdf pages_text query = Inr hits \<and>
     list_all (\<lambda>h. (\<exists>u v. Contexto h = u @ replace (Coincidencia h) 10 32 @ v) \<and>
                    (10 \<notin> set query \<longrightarrow>
                       (\<exists>u v. Contexto h = u @ Coincidencia h @ v) \<and>
                       contains_ignorecase (Contexto h) (Coincidencia h))) hits"
proof -
  have "(\<exists>u v. Contexto h = u @ replace (Coincidencia h) 10 32 @ v) \<and>
        (10 \<notin> set query \<longrightarrow>
           (\<exists>u v. Contexto h = u @ Coincidencia h @ v) \<and>
           contains_ignorecase (Contexto h) (Coincidencia h))"
    if "h \<in> set (search_pages (lits query) pages_text)" for h
  proof -
    from that obtain p m where h: "h = make_hit p m"
      and e: "mend m = mstart m + length query" and le: "mend m \<le> length (page_text p)"
      and eq: "eq_ignorecase query (take (length query) (drop (mstart m) (page_text p)))"
      by (rule hit_of_literal)
    let ?t = "page_text p"
    let ?a = "mstart m - 100" and ?b = "min (length ?t) (mend m + 100)"
    from e have b: "mstart m \<le> mend m" by simp
    have co: "Coincidencia h = take (length query) (drop (mstart m) ?t)"
      unfolding h make_hit_Coincidencia[OF b le] using e by simp
    have "take (?b - ?a) (drop ?a ?t) =
            take (mstart m - ?a) (drop ?a ?t) @ take (mend m - mstart m) (drop (mstart m) ?t)
            @ take (?b - mend m) (drop (mend m) ?t)"
      using b le by (intro window_split) simp_all
    then have ctx: "Contexto h = replace (take (mstart m - ?a) (drop ?a ?t)) 10 32
            @ replace (Coincidencia h) 10 32 @ replace (take (?b - mend m) (drop (mend m) ?t)) 10 32"
      unfolding h make_hit_Contexto[OF b le] make_hit_Coincidencia[OF b le]
      by (simp add: replace_append)
    then have one: "\<exists>u v. Contexto h = u @ replace (Coincidencia h) 10 32 @ v" by blast
    have two: "(\<exists>u v. Contexto h = u @ Coincidencia h @ v) \<and>
               contains_ignorecase (Contexto h) (Coincidencia h)" if "10 \<notin> set query"
    proof -
      from eq_ignorecase_newline[OF eq that] have "10 \<notin> set (Coincidencia h)" by (simp add: co)
      then have "replace (Coincidencia h) 10 32 = Coincidencia h" by (rule replace_id)
      with ctx show ?thesis by (metis contains_ignorecaseI)
    qed
    from one two show ?thesis by blast
  qed
  then show ?thesis
    unfolding search_in_pdf_literal by (simp add: list_all_iff)
qed

text \<open>
  The query \<open>ab\<close> holds no newline; on the page \<open>x\nAB\ny\<close> its hit has the matched
  text \<open>AB\<close> and the context \<open>x AB y\<close>.
\<close>

theorem search_context_contains_match_witness:
  "10 \<notin> set (py_str ''ab'') \<and>
   search_in_pdf [\<lparr>page = 1, page_text = [120, 10, 65, 66, 10, 121]\<rparr>] (py_str ''ab'')
     = Inr [\<lparr>Pagina = 1, Coincidencia = py_str ''AB'', Contexto = py_str ''x AB y''\<rparr>] \<and>
   (\<exists>u v. py_str ''x AB y'' = u @ py_str ''AB'' @ v) \<and>
   contains_ignorecase (py_str ''x AB y'') (py_str ''AB'')"
proof -
  let ?P = "[\<lparr>page = 1, page_text = [120, 10, 65, 66, 10, 121]\<rparr>]"
  let ?h = "\<lparr>Pagina = 1, Coincidencia = py_str ''AB'', Contexto = py_str ''x AB y''\<rparr>"
  have a: "10 \<notin> set (py_str ''ab'')" by (simp add: py_str_def)
  have e: "search_in_pdf ?P (py_str ''ab'') = Inr [?h]" by code_simp
  from search_context_contains_match[of ?P "py_str ''ab''"] a e
  have "(\<exists>u v. Contexto ?h = u @ Coincidencia ?h @ v) \<and>
        contains_ignorecase (Contexto ?h) (Coincidencia ?h)"
    by simp
  with a e show ?thesis by simp
qed

text \<open>
  The claim as stated fails for a query that holds a newline: searching the page
  \<open>a\nb\<close> for a newline gives a hit whose matched text is the newline and whose
  context is \<open>a b\<close>, which holds no newline.
\<close>

theorem search_context_newline_counterexample:
  "search_in_pdf [\<lparr>page = 1, page_text = [97, 10, 98]\<rparr>] [10]
     = Inr [\<lparr>Pagina = 1, Coincidencia = [10], Contexto = [97, 32, 98]\<rparr>]
   \<and> \<not> contains_ignorecase [97, 32, 98] [10]"
  by code_simp

text \<open>
  C8. For a query that is not empty, the hits of \<open>search_in_pdf\<close> are those of the
  left-to-right scan of the specification, page after page in the order of the page
  sequence; so the page numbers of the hits ascend when the pages come in ascending
  order of their numbers, as \<open>extract_text_with_pages\<close> numbers them. On each page the
  reported positions ascend and the occurrences do not overlap. Each reported position
  is an occurrence of the query, and every occurrence of the query is reported or
  overlaps a reported one that starts before it.
\<close>

theorem search_scan_order:
  assumes "query \<noteq> []"
  shows "\<exists>hits. search_in_pdf pages_text query = Inr hits \<and>
     hits = concat (map (\<lambda>p. map (\<lambda>s. make_hit p (literal_match query s))
                                  (occurrences query (page_text p) 0)) pages_text) \<and>
     (sorted (map page pages_text) \<longrightarrow> sorted (map Pagina hits)) \<and>
     list_all (\<lambda>p. sorted_wrt (\<lambda>s s'. s + length query \<le> s') (occurrences query (page_text p) 0) \<and>
                    list_all (occurs_at query (page_text p)) (occurrences query (page_text p) 0) \<and>
                    (\<forall>i. occurs_at query (page_text p) i \<longrightarrow>
                       (\<exists>s \<in> set (occurrences query (page_text p) 0). s \<le> i \<and> i < s + length query)))
              pages_text"
proof -
  let ?hits = "search_pages (lits query) pages_text"
  have 1: "?hits = concat (map (\<lambda>p. map (\<lambda>s. make_hit p (literal_match query s))
                                  (occurrences query (page_text p) 0)) pages_text)"
    by (simp add: search_pages_def finditer_lits[OF assms] comp_def)
  have 2: "sorted (map Pagina ?hits)" if "sorted (map page pages_text)"
    unfolding Pagina_search_pages using that by (rule sorted_concat_replicate)
  have 3: "sorted_wrt (\<lambda>s s'. s + length query \<le> s') (occurrences query t 0)" for t
    by (rule occurrences_sorted[OF assms])
  have 4: "list_all (occurs_at query t) (occurrences query t 0)" for t
    using occurrences_occur[OF assms] by (simp add: list_all_iff)
  have 5: "\<exists>s \<in> set (occurrences query t 0). s \<le> i \<and> i < s + length query"
    if "occurs_at query t i" for t i
    using occurrences_complete_from[OF assms that, of 0] by simp
  from 1 2 3 4 5 show ?thesis
    unfolding search_in_pdf_literal by (simp add: list_all_iff)
qed

text \<open>
  A document of two pages, as \<open>extract_text_with_pages\<close> numbers them: the query
  \<open>ab\<close> occurs twice on the first page, \<open>abab\<close>, and once, in capitals, on the second,
  \<open>xAB\<close>.
\<close>

theorem search_scan_order_witness:
  "py_str ''ab'' \<noteq> [] \<and>
   sorted (map page (extract_text_with_pages [py_str ''abab'', py_str ''xAB''])) \<and>
   (\<exists>hits. search_in_pdf (extract_text_with_pages [py_str ''abab'', py_str ''xAB'']) (py_str ''ab'')
              = Inr hits \<and>
      map Pagina hits = [1, 1, 2] \<and> sorted (map Pagina hits)) \<and>
   occurrences (py_str ''ab'') (py_str ''abab'') 0 = [0, 2] \<and>
   occurrences (py_str ''ab'') (py_str ''xAB'') 0 = [1]"
proof -
  let ?P = "extract_text_with_pages [py_str ''abab'', py_str ''xAB'']"
  have P: "?P = [\<lparr>page = 1, page_text = py_str ''abab''\<rparr>, \<lparr>page = 2, page_text = py_str ''xAB''\<rparr>]"
    by (simp add: extract_text_with_pages_def)
  have a: "py_str ''ab'' \<noteq> []" by (simp add: py_str_def)
  have b: "sorted (map page ?P)" by (rule extract_pages_sorted)
  have o1: "occurrences (py_str ''ab'') (py_str ''abab'') 0 = [0, 2]" by code_simp
  have o2: "occurrences (py_str ''ab'') (py_str ''xAB'') 0 = [1]" by code_simp
  from search_scan_order[OF a, of ?P] b obtain hits
    where h: "search_in_pdf ?P (py_str ''ab'') = Inr hits"
      and c: "hits = concat (map (\<lambda>p. map (\<lambda>s. make_hit p (literal_match (py_str ''ab'') s))
                                  (occurrences (py_str ''ab'') (page_text p) 0)) ?P)"
      and s: "sorted (map Pagina hits)"
    by blast
  from c have "map Pagina hits = [1, 1, 2]"
    unfolding P by (simp add: o1 o2 make_hit_Pagina)
  with h s have ex: "\<exists>hits. search_in_pdf ?P (py_str ''ab'') = Inr hits \<and>
      map Pagina hits = [1, 1, 2] \<and> sorted (map Pagina hits)"
    by (intro exI[of _ hits] conjI)
  show ?thesis
    by (rule conjI[OF a conjI[OF b conjI[OF ex conjI[OF o1 o2]]]])
qed


section \<open>Patterns that begin with a keyword\<close>

lemma ms_groupfree_aux:
  "ngroups r = 0 \<Longrightarrow> (e, g') \<in> set (ms t r st) \<Longrightarrow> g' = snd st"
proof (induction t r st arbitrary: e g' rule: ms.induct)
  case (4 t a b st)
  from "4.prems" obtain j h where m: "(j, h) \<in> set (ms t a st)"
    and e: "(e, g') \<in> set (ms t b (j, h))"
    by auto
  from "4.prems"(1) have na: "ngroups a = 0" and nb: "ngroups b = 0" by simp_all
  from "4.IH"(1)[OF na m] have "h = snd st" .
  moreover from "4.IH"(2)[OF m nb e] have "g' = h" by simp
  ultimately show ?case by simp
next
  case (6 t r i g)
  from "6.prems"(1) have nr: "ngroups r = 0" by simp
  from "6.prems"(2) consider
      (stop) "g' = g"
    | (more) j h where "(j, h) \<in> set (ms t r (i, g))" "i < j" "j \<le> length t"
        "(e, g') \<in> set (ms t (Star r) (j, h))"
    by (subst (asm) ms_Star) (auto split: if_splits)
  then show ?case
  proof cases
    case stop
    then show ?thesis by simp
  next
    case more
    from "6.IH"(1)[OF nr more(1)] have "h = g" by simp
    moreover have "g' = h"
      using "6.IH"(2)[OF more(1) _ _ "6.prems"(1) more(4)] more(2,3) by simp
    ultimately show ?thesis by simp
  qed
qed (auto split: if_splits)

lemma ms_groupfree:
  "ngroups r = 0 \<Longrightarrow> (e, g') \<in> set (ms t r (i, g)) \<Longrightarrow> g' = g"
  using ms_groupfree_aux[of r e g' t "(i, g)"] by simp

lemma ngroups_lits: "ngroups (lits q) = 0"
  by (induction q) simp_all

lemma lit_match_visible:
  assumes "\<not> isspace (tolower c)" "lit_match c d"
  shows "\<not> isspace d"
proof
  assume s: "isspace d"
  then have "tolower d = d" by (auto simp: isspace_def tolower_def)
  with assms(2) have "d = tolower c" by (simp add: lit_match_def)
  with s assms(1) show False by simp
qed

lemma starts_visible_lits:
  assumes "\<not> isspace (tolower c)"
  shows "starts_visible (lits (c # cs))"
  unfolding starts_visible_def
proof (intro allI impI)
  fix t i g e g'
  assume m: "(e, g') \<in> set (ms t (lits (c # cs)) (i, g))"
  then have i: "i < length t" and l: "lit_match c (t ! i)"
    and r: "(e, g') \<in> set (ms t (lits cs) (Suc i, g))"
    by (auto split: if_splits)
  from i have "Suc i \<le> length t" by simp
  from ms_bounds[OF r this] have "i < e" by simp
  moreover from ms_groupfree[OF ngroups_lits r] have "g' = g" .
  moreover from lit_match_visible[OF assms l] have "\<not> isspace (t ! i)" .
  ultimately show "i < e \<and> i < length t \<and> \<not> isspace (t ! i) \<and> g' = g" using i by simp
qed

lemma starts_visible_Alt:
  "starts_visible a \<Longrightarrow> starts_visible b \<Longrightarrow> starts_visible (Alt a b)"
  unfolding starts_visible_def by auto

lemma starts_visible_Seq:
  assumes "starts_visible a" "ngroups b = 0"
  shows "starts_visible (Seq a b)"
  unfolding starts_visible_def
proof (intro allI impI)
  fix t i g e g'
  assume "(e, g') \<in> set (ms t (Seq a b) (i, g))"
  then obtain j h where m: "(j, h) \<in> set (ms t a (i, g))"
    and r: "(e, g') \<in> set (ms t b (j, h))"
    by auto
  from assms(1) m have a: "i < j" "i < length t" "\<not> isspace (t ! i)" "h = g"
    unfolding starts_visible_def by blast+
  from a(2) have "i \<le> length t" by simp
  from ms_bounds[OF m this] have "j \<le> length t" by simp
  from ms_bounds[OF r this] have "j \<le> e" by simp
  moreover from ms_groupfree[OF assms(2) r] have "g' = h" .
  ultimately show "i < e \<and> i < length t \<and> \<not> isspace (t ! i) \<and> g' = g" using a by simp
qed

lemma starts_visible_word:
  assumes "w \<noteq> []" and "\<not> isspace (tolower (of_char (hd w)))"
  shows "starts_visible (lits (py_str w))"
proof -
  from assms(1) obtain a as where w: "w = a # as" by (cases w) auto
  with assms(2) have "\<not> isspace (tolower (of_char a))" by simp
  from starts_visible_lits[OF this, of "map of_char as"] w show ?thesis
    by (simp add: py_str_def)
qed

lemma starts_visible_word_alts:
  "ws \<noteq> [] \<Longrightarrow> list_all (\<lambda>w. w \<noteq> [] \<and> \<not> isspace (tolower (of_char (hd w)))) ws \<Longrightarrow>
     starts_visible (word_alts ws)"
  unfolding word_alts_def
proof (induction ws rule: induct_list012)
  case 1
  then show ?case by simp
next
  case (2 w)
  then show ?case by (simp add: starts_visible_word)
next
  case (3 w v ws)
  then show ?case by (simp add: starts_visible_word starts_visible_Alt)
qed

lemma keyword_pattern_match:
  assumes "keyword_pattern p" and "(e, g') \<in> set (ms t p (i, g))"
  shows "\<exists>j. g' 1 = Some (i, j) \<and> i < j \<and> j \<le> e \<and> i < length t \<and> \<not> isspace (t ! i)"
proof -
  from assms(1) obtain k r where p: "p = Seq (Group 1 k) r" and v: "starts_visible k"
    and nr: "ngroups r = 0"
    unfolding keyword_pattern_def by blast
  from assms(2) obtain j h where m: "(j, h) \<in> set (ms t k (i, g))"
    and r: "(e, g') \<in> set (ms t r (j, h(1 \<mapsto> (i, j))))"
    unfolding p by auto
  from v m have a: "i < j" "i < length t" "\<not> isspace (t ! i)"
    unfolding starts_visible_def by blast+
  from a(2) have "i \<le> length t" by simp
  from ms_bounds[OF m this] have "j \<le> length t" by simp
  from ms_bounds[OF r this] have "j \<le> e" by simp
  moreover from ms_groupfree[OF nr r] have "g' 1 = Some (i, j)" by simp
  ultimately show ?thesis using a by blast
qed

lemma keyword_pattern_ngroups: "keyword_pattern p \<Longrightarrow> ngroups p = 1"
  unfolding keyword_pattern_def by auto

lemma dropWhile_keeps: "x \<in> set xs \<Longrightarrow> \<not> P x \<Longrightarrow> x \<in> set (dropWhile P xs)"
  by (induction xs) auto

lemma strip_keeps: "x \<in> set s \<Longrightarrow> \<not> isspace x \<Longrightarrow> x \<in> set (strip s)"
  unfolding strip_def by (simp add: dropWhile_keeps)

lemma keyword_pattern_group:
  assumes "keyword_pattern p" and "m \<in> set (finditer p t)"
  shows "\<exists>c \<in> set (strip (group t m 1)). \<not> isspace c"
proof -
  from finditer_mem[OF assms(2)] have le: "mend m \<le> length t"
    and mem: "(mend m, mgroups m) \<in> set (ms t p (mstart m, Map.empty))"
    by auto
  from keyword_pattern_match[OF assms(1) mem] obtain j
    where g: "mgroups m 1 = Some (mstart m, j)" and b: "mstart m < j" "j \<le> mend m"
      and v: "mstart m < length t" "\<not> isspace (t ! mstart m)"
    by blast
  from b le have "j \<le> length t" by simp
  with b(1) g have "group t m 1 = take (j - mstart m) (drop (mstart m) t)"
    by (simp add: group_def slice_nat)
  also have "\<dots> = t ! mstart m # take (j - Suc (mstart m)) (drop (Suc (mstart m)) t)"
    using b(1) v(1) by (simp add: Cons_nth_drop_Suc[symmetric] take_Cons')
  finally have "t ! mstart m \<in> set (group t m 1)" by simp
  from strip_keeps[OF this v(2)] v(2) show ?thesis by blast
qed

lemma rows_of_keyword:
  assumes "keyword_pattern p" and "r \<in> set (rows_of key p t)"
  shows "\<exists>c \<in> set (Valor r). \<not> isspace c"
proof -
  from assms(2) obtain m where m: "m \<in> set (finditer p t)"
    and r: "r = \<lparr>Categoria = key, Valor = strip (group t m 1)\<rparr>"
    unfolding rows_of_def findall_def by (auto simp: keyword_pattern_ngroups[OF assms(1)])
  from keyword_pattern_group[OF assms(1) m] r show ?thesis by simp
qed

lemma rows_of_Categoria: "r \<in> set (rows_of key p t) \<Longrightarrow> Categoria r = key"
  unfolding rows_of_def by (auto split: fa_item.splits)

lemma keyword_patternI:
  "starts_visible k \<Longrightarrow> ngroups k = 0 \<Longrightarrow> ngroups r = 0 \<Longrightarrow> keyword_pattern (Seq (Group 1 k) r)"
  unfolding keyword_pattern_def by blast

lemma ngroups_word_alts: "ngroups (word_alts ws) = 0"
  unfolding word_alts_def by (induction ws rule: induct_list012) (simp_all add: ngroups_lits)

lemma keyword_pattern_Juzgado: "keyword_pattern pat_Juzgado"
  unfolding pat_Juzgado_def
proof (rule keyword_patternI)
  show "starts_visible (word_alts [''Juzgado'', ''Sala'', ''Tribunal''])"
    by (rule starts_visible_word_alts) (simp_all add: isspace_def tolower_def)
qed (simp_all add: ngroups_word_alts)

lemma keyword_pattern_Expediente: "keyword_pattern pat_Expediente"
  unfolding pat_Expediente_def
proof (rule keyword_patternI)
  show "starts_visible (word_alts [''Expediente'', ''T.'', ''Toca'', ''Juicio'', ''Proceso'', ''Asunto''])"
    by (rule starts_visible_word_alts) (simp_all add: isspace_def tolower_def)
qed (simp_all add: ngroups_word_alts Plus_def)

lemma keyword_pattern_Secretaria: "keyword_pattern pat_Secretaria"
  unfolding pat_Secretaria_def
proof (rule keyword_patternI)
  have "starts_visible (lits (py_str ''Secretar''))" "starts_visible (lits (py_str ''Despacho''))"
    by (rule starts_visible_word; simp add: isspace_def tolower_def)+
  then show "starts_visible (Alt (Seq (lits (py_str ''Secretar'')) (Seq (Cls [CLit 105, CLit 237]) (Lit 97)))
                       (lits (py_str ''Despacho'')))"
    by (intro starts_visible_Alt starts_visible_Seq) simp_all
qed (simp_all add: ngroups_lits)


section \<open>Dropping duplicate rows\<close>

lemma drop_dups_set: "set (drop_dups seen xs) = set xs - set seen"
  by (induction seen xs rule: drop_dups.induct) auto

lemma drop_dups_distinct: "distinct (drop_dups seen xs)"
  by (induction seen xs rule: drop_dups.induct) (auto simp: drop_dups_set)

lemma analyze_set: "set (analyze_legal_data t) = set (results t)"
  by (simp add: analyze_legal_data_def drop_duplicates_def drop_dups_set)

lemma results_rows:
  "results t = rows_of Juzgado pat_Juzgado t @ rows_of Expediente pat_Expediente t @
     rows_of Secretaria pat_Secretaria t @ rows_of Demandante pat_Demandante t @
     rows_of Demandado pat_Demandado t"
  by (simp add: results_def patterns_def)

lemma filter_drop_dups:
  "filter P (drop_dups seen xs) = drop_dups (filter P seen) (filter P xs)"
  by (induction seen xs rule: drop_dups.induct) auto

lemma drop_dups_snoc:
  "drop_dups seen (xs @ [x]) = drop_dups seen xs @ (if x \<in> set seen \<union> set xs then [] else [x])"
  by (induction seen xs rule: drop_dups.induct) auto

lemma drop_dups_sorted: "sorted (map f xs) \<Longrightarrow> sorted (map f (drop_dups seen xs))"
  by (induction seen xs rule: drop_dups.induct) (auto simp: drop_dups_set)

lemma drop_duplicates_first:
  "drop_duplicates xs = map ((!) xs) (filter (\<lambda>i. xs ! i \<notin> set (take i xs)) [0 ..< length xs])"
proof (induction xs rule: rev_induct)
  case Nil
  then show ?case by (simp add: drop_duplicates_def)
next
  case (snoc x xs)
  define ys where "ys = xs @ [x]"
  define Q where "Q = (\<lambda>i. xs ! i \<notin> set (take i xs))"
  define Q' where "Q' = (\<lambda>i. ys ! i \<notin> set (take i ys))"
  have f: "filter Q' [0 ..< length xs] = filter Q [0 ..< length xs]"
    by (rule filter_cong) (simp_all add: Q_def Q'_def ys_def nth_append)
  have m: "map ((!) ys) (filter Q [0 ..< length xs]) = map ((!) xs) (filter Q [0 ..< length xs])"
    by (rule map_cong) (simp_all add: ys_def nth_append)
  have l: "Q' (length xs) \<longleftrightarrow> x \<notin> set xs"
    by (simp add: Q'_def ys_def)
  have "map ((!) ys) (filter Q' [0 ..< length ys])
      = map ((!) ys) (filter Q' [0 ..< length xs]) @ (if x \<in> set xs then [] else [x])"
    using l by (simp add: ys_def)
  also have "\<dots> = map ((!) xs) (filter Q [0 ..< length xs]) @ (if x \<in> set xs then [] else [x])"
    by (simp only: f m)
  also have "\<dots> = drop_duplicates xs @ (if x \<in> set xs then [] else [x])"
    by (simp only: snoc.IH Q_def)
  also have "\<dots> = drop_duplicates ys"
    by (simp add: drop_duplicates_def drop_dups_snoc ys_def)
  finally show ?case unfolding Q'_def ys_def by simp
qed

lemma rows_of_matches:
  "rows_of k p t = map (\<lambda>m. \<lparr>Categoria = k, Valor = strip (group t m (ngroups p))\<rparr>) (finditer p t)"
proof -
  consider "ngroups p = 0" | "ngroups p = 1" | "2 \<le> ngroups p" by arith
  then show ?thesis
  proof cases
    case 3
    then have "last (map (group t m) [1 ..< Suc (ngroups p)]) = group t m (ngroups p)" for m
      by (simp add: last_map)
    with 3 show ?thesis by (simp add: rows_of_def findall_def)
  qed (simp_all add: rows_of_def findall_def)
qed

lemma filter_rows_of:
  "filter (\<lambda>r. Categoria r = k) (rows_of k' p t) = (if k = k' then rows_of k' p t else [])"
  by (auto simp: rows_of_matches filter_empty_conv intro: filter_True)

lemma cat_rank_values:
  "cat_rank Juzgado = 0" "cat_rank Expediente = 1" "cat_rank Secretaria = 2"
  "cat_rank Demandante = 3" "cat_rank Demandado = 4"
  by (simp_all add: cat_rank_def patterns_def)

lemma rank_rows_of:
  "map (cat_rank \<circ> Categoria) (rows_of k p t) = replicate (length (finditer p t)) (cat_rank k)"
  by (simp add: rows_of_matches comp_def map_replicate_const)

lemma results_sorted: "sorted (map (cat_rank \<circ> Categoria) (results t))"
  unfolding results_rows map_append rank_rows_of cat_rank_values
  by (auto simp: sorted_append)

lemma filter_analyze:
  "filter P (analyze_legal_data t) = drop_duplicates (filter P (results t))"
  by (simp add: analyze_legal_data_def drop_duplicates_def filter_drop_dups)

section \<open>The claims about \<open>analyze_legal_data\<close>\<close>

text \<open>
  C1. On the text \<open>Juzgado Primero Civil de Distrito\<close> the claim asks for a row of
  category Juzgado whose value contains the whole text. The program gives the keyword
  alone: the pattern of Juzgado has one group, so \<open>findall\<close> returns the string of that
  group and not the whole match, and the rest of the match is dropped.
\<close>

theorem analyze_Juzgado_keyword_only:
  "analyze_legal_data (py_str ''Juzgado Primero Civil de Distrito'')
     = [\<lparr>Categoria = Juzgado, Valor = py_str ''Juzgado''\<rparr>]"
  by code_simp

lemma analyze_Demandado_example:
  "analyze_legal_data (py_str ''El Demandado: Juan P'' @ [233] @ py_str ''rez L'' @ [243] @ py_str ''pez compareci'' @ [243])
     = [\<lparr>Categoria = Demandado,
         Valor = py_str ''Juan P'' @ [233] @ py_str ''rez L'' @ [243] @ py_str ''pez compareci'' @ [243]\<rparr>]"
  by code_simp

text \<open>
  C2 (as amended). On the text \<open>El Demandado: Juan P\<eacute>rez L\<oacute>pez compareci\<oacute>\<close> the result
  holds one row of category Demandado, and its value is \<open>Juan P\<eacute>rez L\<oacute>pez compareci\<oacute>\<close>:
  the group takes the whole run of letters, spaces and dots behind the keyword, trimmed,
  with no colon or space in front.
\<close>

theorem analyze_Demandado_value:
  "filter (\<lambda>r. Categoria r = Demandado)
     (analyze_legal_data (py_str ''El Demandado: Juan P'' @ [233] @ py_str ''rez L'' @ [243] @ py_str ''pez compareci'' @ [243]))
     = [\<lparr>Categoria = Demandado,
         Valor = py_str ''Juan P'' @ [233] @ py_str ''rez L'' @ [243] @ py_str ''pez compareci'' @ [243]\<rparr>]"
  using analyze_Demandado_example by simp

text \<open>
  The claim as stated fails: no row of category Demandado has the value
  \<open>Juan P\<eacute>rez L\<oacute>pez\<close>.
\<close>

theorem analyze_Demandado_value_counterexample:
  "\<not> list_ex (\<lambda>r. Categoria r = Demandado \<and> Valor r = py_str ''Juan P'' @ [233] @ py_str ''rez L'' @ [243] @ py_str ''pez'')
     (analyze_legal_data (py_str ''El Demandado: Juan P'' @ [233] @ py_str ''rez L'' @ [243] @ py_str ''pez compareci'' @ [243]))"
  using analyze_Demandado_example by (simp add: py_str_def)

text \<open>
  C4 (as amended). For every input text, every row of the categories Juzgado, Expediente
  and Secretaria has a value that is not empty and not white space only: the value is
  the keyword the pattern's group matched. (The values of Demandante and Demandado are
  the trimmed second group and can be empty.)
\<close>

theorem analyze_keyword_values_visible:
  assumes "r \<in> set (analyze_legal_data t)"
    and "Categoria r = Juzgado \<or> Categoria r = Expediente \<or> Categoria r = Secretaria"
  shows "Valor r \<noteq> [] \<and> strip (Valor r) \<noteq> []"
proof -
  from assms(1) have "r \<in> set (results t)" by (simp add: analyze_set)
  with assms(2) have "\<exists>c \<in> set (Valor r). \<not> isspace c"
    unfolding results_rows
    by (auto dest: rows_of_Categoria
        rows_of_keyword[OF keyword_pattern_Juzgado]
        rows_of_keyword[OF keyword_pattern_Expediente]
        rows_of_keyword[OF keyword_pattern_Secretaria])
  then obtain c where c: "c \<in> set (Valor r)" "\<not> isspace c" by blast
  from strip_keeps[OF this] c(1) show ?thesis by auto
qed

text \<open>
  The text \<open>Expediente 12/2024\<close> gives one row, of category Expediente, with the
  keyword as its value.
\<close>

lemma analyze_Expediente_example:
  "analyze_legal_data (py_str ''Expediente 12/2024'') = [\<lparr>Categoria = Expediente, Valor = py_str ''Expediente''\<rparr>]"
  by code_simp

theorem analyze_keyword_values_visible_witness:
  "\<lparr>Categoria = Expediente, Valor = py_str ''Expediente''\<rparr> \<in> set (analyze_legal_data (py_str ''Expediente 12/2024'')) \<and>
   Valor \<lparr>Categoria = Expediente, Valor = py_str ''Expediente''\<rparr> \<noteq> [] \<and>
   strip (Valor \<lparr>Categoria = Expediente, Valor = py_str ''Expediente''\<rparr>) \<noteq> []"
proof -
  let ?r = "\<lparr>Categoria = Expediente, Valor = py_str ''Expediente''\<rparr>"
  have a: "?r \<in> set (analyze_legal_data (py_str ''Expediente 12/2024''))"
    by (simp add: analyze_Expediente_example)
  have b: "Categoria ?r = Juzgado \<or> Categoria ?r = Expediente \<or> Categoria ?r = Secretaria" by simp
  from analyze_keyword_values_visible[OF a b] a show ?thesis by blast
qed

text \<open>
  The claim as stated fails on the text \<open>Actor\<close> followed by two spaces: the first
  space is taken by \<open>[:\s]+\<close>, the second by the group, and the trimmed value is empty.
\<close>

theorem analyze_empty_value_counterexample:
  "analyze_legal_data (py_str ''Actor  '') = [\<lparr>Categoria = Demandante, Valor = []\<rparr>]"
  by code_simp

text \<open>
  C7. For every input text, \<open>analyze_legal_data\<close> never returns two rows with the same
  category and the same value: the rows of the returned table are pairwise distinct.
\<close>

theorem analyze_rows_distinct: "distinct (analyze_legal_data t)"
  unfolding analyze_legal_data_def drop_duplicates_def by (rule drop_dups_distinct)

text \<open>
  C10. The order of the rows is fixed by the text. The table lists the categories as
  Juzgado, Expediente, Secretaria, Demandante, Demandado, and the rows of the result
  follow that order. The rows of one category are the values of the successive matches
  of its pattern, each match beginning where the one before ended or later, with the
  duplicates dropped. Of equal rows the first is kept: the result holds, in their order,
  the rows that no earlier row equals.
\<close>

theorem analyze_order:
  "map fst patterns = [Juzgado, Expediente, Secretaria, Demandante, Demandado] \<and>
   map cat_rank [Juzgado, Expediente, Secretaria, Demandante, Demandado] = [0, 1, 2, 3, 4] \<and>
   sorted (map (cat_rank \<circ> Categoria) (analyze_legal_data t)) \<and>
   list_all (\<lambda>(k, p).
       filter (\<lambda>r. Categoria r = k) (analyze_legal_data t) = drop_duplicates (rows_of k p t) \<and>
       rows_of k p t = map (\<lambda>m. \<lparr>Categoria = k, Valor = strip (group t m (ngroups p))\<rparr>) (finditer p t) \<and>
       sorted_wrt (\<lambda>a b. mend a \<le> mstart b) (finditer p t)) patterns \<and>
   analyze_legal_data t =
     map ((!) (results t)) (filter (\<lambda>i. results t ! i \<notin> set (take i (results t))) [0 ..< length (results t)])"
proof -
  have 1: "map fst patterns = [Juzgado, Expediente, Secretaria, Demandante, Demandado]"
    by (simp add: patterns_def)
  have 2: "map cat_rank [Juzgado, Expediente, Secretaria, Demandante, Demandado] = [0, 1, 2, 3, 4]"
    by (simp add: cat_rank_values)
  have 3: "sorted (map (cat_rank \<circ> Categoria) (analyze_legal_data t))"
    unfolding analyze_legal_data_def drop_duplicates_def
    by (rule drop_dups_sorted) (rule results_sorted)
  have 4: "filter (\<lambda>r. Categoria r = k) (analyze_legal_data t) = drop_duplicates (rows_of k p t)"
    if "(k, p) \<in> set patterns" for k p
    using that unfolding filter_analyze results_rows
    by (auto simp: patterns_def filter_rows_of)
  have 5: "sorted_wrt (\<lambda>a b. mend a \<le> mstart b) (finditer p t)" for p
    unfolding finditer_def by (rule scan_sorted)
  have 6: "analyze_legal_data t =
     map ((!) (results t)) (filter (\<lambda>i. results t ! i \<notin> set (take i (results t))) [0 ..< length (results t)])"
    unfolding analyze_legal_data_def by (rule drop_duplicates_first)
  have "list_all (\<lambda>(k, p).
       filter (\<lambda>r. Categoria r = k) (analyze_legal_data t) = drop_duplicates (rows_of k p t) \<and>
       rows_of k p t = map (\<lambda>m. \<lparr>Categoria = k, Valor = strip (group t m (ngroups p))\<rparr>) (finditer p t) \<and>
       sorted_wrt (\<lambda>a b. mend a \<le> mstart b) (finditer p t)) patterns"
    unfolding list_all_iff using 4 5 rows_of_matches by blast
  with 1 2 3 6 show ?thesis by blast
qed

end
